theory Spec2Isabelle
  imports Complex_Main "HOL-Library.Word"
begin

unbundle bit_operations_syntax

section \<open>Data model\<close>

text \<open>
  The workers of the HS6D codec receive a \<^verbatim>\<open>Uint8Array\<close> and post messages back.
  A byte array is a list of 8-bit words. An exception of the source is a value of
  \<open>error\<close>; the constructors name the places of the source that throw:
  \<^item> \<open>RangeError\<close>: a \<^verbatim>\<open>DataView\<close> access whose offset plus element size exceeds the
    view's byte length (ECMAScript GetViewValue and SetViewValue);
  \<^item> \<open>EngineFailure\<close>: whatever \<^verbatim>\<open>bwt-engine.js\<close> or \<^verbatim>\<open>huffman-engine.js\<close> throws;
  \<^item> \<open>StructuredCompressionFailed\<close>, \<open>BinaryCompressionFailed\<close>: the two errors that
    compress-worker.js rethrows from its inner handlers;
  \<^item> \<open>FileTooLarge\<close>: the size ceiling of compress-worker.js;
  \<^item> \<open>FileTooShort\<close>, \<open>InvalidFormat\<close>, \<open>ChecksumMismatch\<close>: the three errors that
    decompress-worker.js throws itself.
\<close>

type_synonym byte = "8 word"

datatype error =
    RangeError
  | EngineFailure
  | StructuredCompressionFailed
  | BinaryCompressionFailed
  | FileTooLarge
  | FileTooShort
  | InvalidFormat
  | ChecksumMismatch

text \<open>
  What a handler emits besides its final message: the progress fractions it posts
  (\<^verbatim>\<open>reportProgress\<close>), and its calls of \<^verbatim>\<open>console.error\<close> and \<^verbatim>\<open>console.warn\<close>
  (the warning carries the two lengths it prints).
\<close>

datatype event =
    Progress rat
  | ConsoleError
  | ConsoleWarn nat nat

text \<open>
  A computation inside the handler's \<^verbatim>\<open>try\<close> block: the events emitted so far and
  either the exception that ended it or its value.
\<close>

type_synonym 'a run = "event list \<times> (error + 'a)"

definition ret :: "'a \<Rightarrow> 'a run" where
  "ret x = ([], Inr x)"

definition throw :: "error \<Rightarrow> 'a run" where
  "throw e = ([], Inl e)"

definition call :: "error + 'a \<Rightarrow> 'a run" where
  "call r = ([], r)"

definition bindR :: "'a run \<Rightarrow> ('a \<Rightarrow> 'b run) \<Rightarrow> 'b run" where
  "bindR m f =
     (case m of
        (es, Inl e) \<Rightarrow> (es, Inl e)
      | (es, Inr x) \<Rightarrow> (case f x of (es', r) \<Rightarrow> (es @ es', r)))"

definition catchR :: "'a run \<Rightarrow> (error \<Rightarrow> 'a run) \<Rightarrow> 'a run" where
  "catchR m h =
     (case m of
        (es, Inl e) \<Rightarrow> (case h e of (es', r) \<Rightarrow> (es @ es', r))
      | (es, Inr x) \<Rightarrow> (es, Inr x))"

definition reportProgress :: "rat \<Rightarrow> unit run" where
  "reportProgress progress = ([Progress progress], Inr ())"

definition console_error :: "unit run" where
  "console_error = ([ConsoleError], Inr ())"

definition console_warn :: "nat \<Rightarrow> nat \<Rightarrow> unit run" where
  "console_warn got expected = ([ConsoleWarn got expected], Inr ())"

definition progress_of :: "event list \<Rightarrow> rat list" where
  "progress_of es = concat (map (\<lambda>e. case e of Progress p \<Rightarrow> [p] | _ \<Rightarrow> []) es)"

text \<open>
  The workers import their engines from \<^verbatim>\<open>../bwt-engine.js\<close> and
  \<^verbatim>\<open>../huffman-engine.js\<close>, and \<^verbatim>\<open>isStructuredText\<close> from \<^verbatim>\<open>../utils.js\<close>. The two
  engine modules are not part of the sources, and utils.js defines no function of that
  name (its detector, \<^verbatim>\<open>detectStructuredData\<close>, is the one the UI thread calls), so the
  workers are modelled over any such collaborators. An engine call either throws or
  returns a byte array, and its outcome depends on its argument only.
\<close>

record engines =
  bwt_process :: "byte list \<Rightarrow> error + byte list"
  bwt_inverse :: "byte list \<Rightarrow> error + byte list"
  huffman_encode :: "byte list \<Rightarrow> error + byte list"
  huffman_decode :: "byte list \<Rightarrow> error + byte list"
  isStructuredText :: "byte list \<Rightarrow> bool"

text \<open>
  The simplest collaborators, for running the handlers on concrete blocks: engines that
  return their argument and a detector that recognises nothing.
\<close>

definition identity_engines :: engines where
  "identity_engines =
     \<lparr> bwt_process = Inr, bwt_inverse = Inr,
       huffman_encode = Inr, huffman_decode = Inr,
       isStructuredText = (\<lambda>_. False) \<rparr>"

section \<open>JavaScript numbers in the two ratio tests\<close>

text \<open>
  Both ratio tests divide one array length by another and compare the quotient with a
  decimal literal. A zero divisor gives \<^verbatim>\<open>NaN\<close> (0/0) or \<^verbatim>\<open>Infinity\<close>; every comparison
  with \<^verbatim>\<open>NaN\<close> is false. For a nonzero divisor the quotient is kept exact: with lengths
  below \<open>2^32\<close> a quotient that differs from 17/20 or 19/20 differs by more than
  \<open>10^-11\<close>, far above double rounding, and a quotient equal to one of them rounds to
  the very double the literal denotes, so the double comparison and the exact one agree.
\<close>

datatype jsnum = NaN | Infinity | Finite rat

definition js_div :: "nat \<Rightarrow> nat \<Rightarrow> jsnum" where
  "js_div a b =
     (if b = 0 then (if a = 0 then NaN else Infinity)
      else Finite (of_nat a / of_nat b))"

fun js_gt :: "jsnum \<Rightarrow> rat \<Rightarrow> bool" where
  "js_gt NaN c = False"
| "js_gt Infinity c = True"
| "js_gt (Finite q) c = (q > c)"

section \<open>utils.js: crc32\<close>

definition crc_table_step :: "32 word \<Rightarrow> 32 word" where
  "crc_table_step c =
     (if c AND 1 \<noteq> 0 then 0xEDB88320 XOR drop_bit 1 c else drop_bit 1 c)"

text \<open>The inner loop of the table construction: eight steps.\<close>

abbreviation crc_step8 :: "32 word \<Rightarrow> 32 word" where
  "crc_step8 \<equiv> crc_table_step ^^ 8"

definition CRC32_TABLE :: "32 word list" where
  "CRC32_TABLE = map (\<lambda>n. crc_step8 (of_nat n)) [0..<256]"

fun crc_bytes :: "32 word \<Rightarrow> byte list \<Rightarrow> 32 word" where
  "crc_bytes crc [] = crc"
| "crc_bytes crc (b # bs) =
     crc_bytes (CRC32_TABLE ! unat ((crc XOR ucast b) AND 0xFF) XOR drop_bit 8 crc) bs"

text \<open>
  The outer loop of \<^verbatim>\<open>crc32\<close> walks the array in chunks of 32768 bytes, the inner loop
  over the bytes \<open>start..<end\<close> of the chunk.
\<close>

function crc_chunks :: "byte list \<Rightarrow> nat \<Rightarrow> nat \<Rightarrow> 32 word \<Rightarrow> 32 word" where
  "crc_chunks data chunks chunk crc =
     (if chunk < chunks then
        (let start = chunk * 32768;
             end = min (start + 32768) (length data)
         in crc_chunks data chunks (chunk + 1)
              (crc_bytes crc (take (end - start) (drop start data))))
      else crc)"
  by pat_completeness auto
termination
  by (relation "measure (\<lambda>(data, chunks, chunk, crc). chunks - chunk)") auto

definition crc32 :: "byte list \<Rightarrow> 32 word" where
  "crc32 data =
     (if length data = 0 then 0
      else crc_chunks data ((length data + 32767) div 32768) 0 (0 XOR (- 1)) XOR (- 1))"

section \<open>DataView\<close>

text \<open>
  A \<^verbatim>\<open>DataView\<close> over a buffer is the buffer's byte list. Multi-byte accesses are
  big-endian (no \<^verbatim>\<open>littleEndian\<close> argument is passed anywhere). Every access first
  checks that offset plus element size stays within the view and throws
  \<^verbatim>\<open>RangeError\<close> otherwise.
\<close>

definition setUint8 :: "byte list \<Rightarrow> nat \<Rightarrow> byte \<Rightarrow> error + byte list" where
  "setUint8 view off v =
     (if off + 1 > length view then Inl RangeError else Inr (view[off := v]))"

definition setUint32 :: "byte list \<Rightarrow> nat \<Rightarrow> 32 word \<Rightarrow> error + byte list" where
  "setUint32 view off v =
     (if off + 4 > length view then Inl RangeError
      else Inr (view[off := ucast (drop_bit 24 v),
                     off + 1 := ucast (drop_bit 16 v),
                     off + 2 := ucast (drop_bit 8 v),
                     off + 3 := ucast v]))"

definition getUint8 :: "byte list \<Rightarrow> nat \<Rightarrow> error + byte" where
  "getUint8 view off =
     (if off + 1 > length view then Inl RangeError else Inr (view ! off))"

definition getUint32 :: "byte list \<Rightarrow> nat \<Rightarrow> error + 32 word" where
  "getUint32 view off =
     (if off + 4 > length view then Inl RangeError
      else Inr (push_bit 24 (ucast (view ! off))
                OR push_bit 16 (ucast (view ! (off + 1)))
                OR push_bit 8 (ucast (view ! (off + 2)))
                OR ucast (view ! (off + 3))))"

definition bindE :: "error + 'a \<Rightarrow> ('a \<Rightarrow> error + 'b) \<Rightarrow> error + 'b" where
  "bindE r f = (case r of Inl e \<Rightarrow> Inl e | Inr x \<Rightarrow> f x)"

definition MAGIC :: "32 word" where
  "MAGIC = 0x48533644"

section \<open>compress-worker.js\<close>

subsection \<open>shouldUseBWT\<close>

definition is_text_char :: "byte \<Rightarrow> bool" where
  "is_text_char b = ((b \<ge> 32 \<and> b \<le> 126) \<or> b = 9 \<or> b = 10 \<or> b = 13)"

function count_text_chars :: "byte list \<Rightarrow> nat \<Rightarrow> nat \<Rightarrow> nat \<Rightarrow> nat" where
  "count_text_chars data sampleSize i textChars =
     (if i < sampleSize then
        count_text_chars data sampleSize (i + 1)
          (if is_text_char (data ! i) then textChars + 1 else textChars)
      else textChars)"
  by pat_completeness auto
termination
  by (relation "measure (\<lambda>(data, sampleSize, i, textChars). sampleSize - i)") auto

definition shouldUseBWT :: "engines \<Rightarrow> byte list \<Rightarrow> bool" where
  "shouldUseBWT eng data =
     (if isStructuredText eng data then True
      else
        (let sampleSize = min (length data) 10000;
             textChars = count_text_chars data sampleSize 0 0;
             textRatio = js_div textChars sampleSize
         in js_gt textRatio (85 / 100)))"

subsection \<open>isAllSame\<close>

function all_same_from :: "byte list \<Rightarrow> byte \<Rightarrow> nat \<Rightarrow> bool" where
  "all_same_from data first i =
     (if i < length data then
        (if data ! i \<noteq> first then False else all_same_from data first (i + 1))
      else True)"
  by pat_completeness auto
termination
  by (relation "measure (\<lambda>(data, first, i). length data - i)") auto

definition isAllSame :: "byte list \<Rightarrow> bool" where
  "isAllSame data =
     (if length data < 100 then False
      else all_same_from data (data ! 0) 1)"

subsection \<open>The message handler\<close>

definition MAX_MOBILE_SIZE :: nat where
  "MAX_MOBILE_SIZE = 50 * 1024 * 1024"

text \<open>
  Lines 58 to 85: the branch on \<^verbatim>\<open>useBWT\<close>. The value is \<^verbatim>\<open>compressedData\<close> and
  \<^verbatim>\<open>isSpecialCase\<close>. In the repeated-byte branch the encoder is called outside any
  inner \<^verbatim>\<open>try\<close>, so its exception reaches the outer handler unchanged.
\<close>

definition encode_stage :: "engines \<Rightarrow> byte list \<Rightarrow> bool \<Rightarrow> (byte list \<times> bool) run" where
  "encode_stage eng data useBWT =
     (if useBWT then
        bindR (reportProgress (2 / 10)) (\<lambda>_.
          catchR
            (bindR (call (bwt_process eng data)) (\<lambda>bwtData.
             bindR (reportProgress (4 / 10)) (\<lambda>_.
             bindR (call (huffman_encode eng bwtData)) (\<lambda>compressedData.
             ret (compressedData, False)))))
            (\<lambda>err. bindR console_error (\<lambda>_. throw StructuredCompressionFailed)))
      else
        bindR (reportProgress (2 / 10)) (\<lambda>_.
          if isAllSame data then
            bindR (reportProgress (3 / 10)) (\<lambda>_.
            bindR (call (huffman_encode eng data)) (\<lambda>compressedData.
            ret (compressedData, True)))
          else
            catchR
              (bindR (call (huffman_encode eng data)) (\<lambda>compressedData.
               ret (compressedData, False)))
              (\<lambda>err. bindR console_error (\<lambda>_. throw BinaryCompressionFailed))))"

text \<open>
  Lines 87 to 93: the effectiveness check. The value is the payload that will be
  framed, \<^verbatim>\<open>isUncompressed\<close> and \<^verbatim>\<open>compressionRatio\<close>, the ratio of the encoder's
  output to the block.
\<close>

definition effectiveness_check ::
  "byte list \<Rightarrow> byte list \<Rightarrow> (byte list \<times> bool \<times> jsnum) run" where
  "effectiveness_check data compressedData =
     (let compressionRatio = js_div (length compressedData) (length data)
      in if js_gt compressionRatio (95 / 100) then
           bindR (reportProgress (6 / 10)) (\<lambda>_. ret (data, True, compressionRatio))
         else ret (compressedData, False, compressionRatio))"

text \<open>
  Lines 51 to 95: everything before the header is built. The value is \<^verbatim>\<open>useBWT\<close>,
  \<^verbatim>\<open>isSpecialCase\<close>, \<^verbatim>\<open>isUncompressed\<close>, the final \<^verbatim>\<open>compressedData\<close> and
  \<^verbatim>\<open>compressionRatio\<close>.
\<close>

definition encode_and_select ::
  "engines \<Rightarrow> byte list \<Rightarrow> (bool \<times> bool \<times> bool \<times> byte list \<times> jsnum) run" where
  "encode_and_select eng data =
     bindR (reportProgress (5 / 100)) (\<lambda>_.
     let useBWT = shouldUseBWT eng data in
     bindR (encode_stage eng data useBWT) (\<lambda>(encoded, isSpecialCase).
     bindR (effectiveness_check data encoded)
       (\<lambda>(compressedData, isUncompressed, compressionRatio).
     bindR (reportProgress (85 / 100)) (\<lambda>_.
     ret (useBWT, isSpecialCase, isUncompressed, compressedData, compressionRatio)))))"

text \<open>Lines 108 to 111: the flags byte.\<close>

definition make_flags :: "bool \<Rightarrow> bool \<Rightarrow> bool \<Rightarrow> byte" where
  "make_flags useBWT isSpecialCase isUncompressed =
     (let flags = 0;
          flags = (if useBWT then flags OR 1 else flags);
          flags = (if isSpecialCase then flags OR 2 else flags);
          flags = (if isUncompressed then flags OR 4 else flags)
      in flags)"

text \<open>
  Lines 98 to 116: the header. The array is allocated with 12 bytes; the magic goes to
  offset 0, the original size to offset 4, the flags to offset 8 and the checksum, a
  32-bit field, to offset 9.
\<close>

definition new_header :: "byte list" where
  "new_header = replicate 12 0"

definition write_header :: "nat \<Rightarrow> byte \<Rightarrow> 32 word \<Rightarrow> error + byte list" where
  "write_header dataLength flags checksum =
     bindE (setUint32 new_header 0 MAGIC) (\<lambda>view.
     bindE (setUint32 view 4 (of_nat dataLength)) (\<lambda>view.
     bindE (setUint8 view 8 flags) (\<lambda>view.
     setUint32 view 9 checksum)))"

record compress_complete =
  compressed :: "byte list"
  c_originalSize :: nat
  c_compressedSize :: nat
  c_compressionRatio :: jsnum

text \<open>
  The body of the \<^verbatim>\<open>try\<close> block. The final array is the header followed by the
  payload (\<^verbatim>\<open>finalOutput.set(compressedData, header.length)\<close>). The \<^verbatim>\<open>fileName\<close>
  that the messages echo is left out.
\<close>

definition compress_try :: "engines \<Rightarrow> byte list \<Rightarrow> compress_complete run" where
  "compress_try eng data =
     bindR (encode_and_select eng data)
       (\<lambda>(useBWT, isSpecialCase, isUncompressed, compressedData, compressionRatio).
     let flags = make_flags useBWT isSpecialCase isUncompressed;
         checksum = crc32 compressedData
     in
     bindR (call (write_header (length data) flags checksum)) (\<lambda>header.
     let finalOutput = header @ compressedData in
     bindR (reportProgress 1) (\<lambda>_.
     ret \<lparr> compressed = finalOutput,
           c_originalSize = length data,
           c_compressedSize = length finalOutput,
           c_compressionRatio = compressionRatio \<rparr>)))"

text \<open>
  \<^verbatim>\<open>self.onmessage\<close>: the size ceiling, then the \<^verbatim>\<open>try\<close> block, whose exception the
  outer \<^verbatim>\<open>catch\<close> turns into the error message (\<open>Inl\<close>).
\<close>

definition compress_onmessage :: "engines \<Rightarrow> byte list \<Rightarrow> nat \<Rightarrow> compress_complete run" where
  "compress_onmessage eng data fileSize =
     (if fileSize > MAX_MOBILE_SIZE then throw FileTooLarge
      else compress_try eng data)"

section \<open>decompress-worker.js\<close>

text \<open>
  Lines 25 to 35: \<^verbatim>\<open>data.slice(0, 12)\<close> copies the first 12 bytes into a buffer of its
  own, and the view reads the magic, the original size, the flags and the checksum
  from that buffer.
\<close>

definition read_header :: "byte list \<Rightarrow> error + (32 word \<times> byte \<times> 32 word)" where
  "read_header data =
     (let header = take 12 data in
      bindE (getUint32 header 0) (\<lambda>magic.
      if magic \<noteq> MAGIC then Inl InvalidFormat
      else
        bindE (getUint32 header 4) (\<lambda>originalSize.
        bindE (getUint8 header 8) (\<lambda>flags.
        bindE (getUint32 header 9) (\<lambda>checksum.
        Inr (originalSize, flags, checksum))))))"

text \<open>Lines 51 to 64: undo the entropy coding and the transform as the flags say.\<close>

definition reconstruct :: "engines \<Rightarrow> bool \<Rightarrow> bool \<Rightarrow> byte list \<Rightarrow> byte list run" where
  "reconstruct eng usedBWT isUncompressed compressedData =
     (if isUncompressed then
        bindR (reportProgress (8 / 10)) (\<lambda>_. ret compressedData)
      else
        bindR (reportProgress (4 / 10)) (\<lambda>_.
        bindR (call (huffman_decode eng compressedData)) (\<lambda>huffmanData.
        if usedBWT then
          bindR (reportProgress (7 / 10)) (\<lambda>_. call (bwt_inverse eng huffmanData))
        else ret huffmanData)))"

text \<open>
  Lines 67 to 71: the repeated-byte case, a fresh array of \<^verbatim>\<open>originalSize\<close> copies of
  the single decoded byte.
\<close>

definition expand_special :: "bool \<Rightarrow> nat \<Rightarrow> byte list \<Rightarrow> byte list" where
  "expand_special isSpecialCase originalSize originalData =
     (if isSpecialCase \<and> length originalData = 1 \<and> originalSize > 1
      then replicate originalSize (originalData ! 0)
      else originalData)"

text \<open>Lines 74 to 79: the size check.\<close>

definition check_size :: "nat \<Rightarrow> byte list \<Rightarrow> byte list run" where
  "check_size originalSize originalData =
     (if length originalData \<noteq> originalSize then
        bindR (console_warn (length originalData) originalSize) (\<lambda>_.
        if length originalData > originalSize
        then ret (take originalSize originalData)
        else ret originalData)
      else ret originalData)"

record decompress_complete =
  decompressed :: "byte list"
  d_compressedSize :: nat
  d_originalSize :: nat

text \<open>Lines 37 to 89: what the handler does once the header fields are read.\<close>

definition after_header ::
  "engines \<Rightarrow> byte list \<Rightarrow> 32 word \<Rightarrow> byte \<Rightarrow> 32 word \<Rightarrow> decompress_complete run" where
  "after_header eng data originalSize flags checksum =
     (let usedBWT = (flags AND 1 = 1);
          isSpecialCase = (flags AND 2 = 2);
          isUncompressed = (flags AND 4 = 4)
      in
      bindR (reportProgress (2 / 10)) (\<lambda>_.
      let compressedData = drop 12 data in
      if crc32 compressedData \<noteq> checksum then throw ChecksumMismatch
      else
        bindR (reconstruct eng usedBWT isUncompressed compressedData) (\<lambda>originalData.
        let originalData = expand_special isSpecialCase (unat originalSize) originalData in
        bindR (check_size (unat originalSize) originalData) (\<lambda>originalData.
        bindR (reportProgress 1) (\<lambda>_.
        ret \<lparr> decompressed = originalData,
              d_compressedSize = length data,
              d_originalSize = length originalData \<rparr>)))))"

definition decompress_onmessage :: "engines \<Rightarrow> byte list \<Rightarrow> decompress_complete run" where
  "decompress_onmessage eng data =
     bindR (reportProgress (5 / 100)) (\<lambda>_.
     if length data < 12 then throw FileTooShort
     else
       bindR (call (read_header data)) (\<lambda>(originalSize, flags, checksum).
       after_header eng data originalSize flags checksum))"

section \<open>The classifier as the specification words it\<close>

text \<open>
  The specification's byte-class sampler: the fraction of the first 10000 bytes (or of
  the whole block when it is shorter) that are printable ASCII (32 to 126) or one of
  tab, line feed and carriage return, compared with 0.85. An empty sample has no
  fraction exceeding anything. The structural-text detector is the parameter
  \<open>detector\<close>.
\<close>

definition printable_or_whitespace :: "byte \<Rightarrow> bool" where
  "printable_or_whitespace b = (unat b \<in> {32..126} \<union> {9, 10, 13})"

definition text_fraction :: "byte list \<Rightarrow> rat" where
  "text_fraction block =
     (let sample = take 10000 block
      in if sample = [] then 0
         else of_nat (length (filter printable_or_whitespace sample)) / of_nat (length sample))"

definition useTransform_spec :: "(byte list \<Rightarrow> bool) \<Rightarrow> byte list \<Rightarrow> bool" where
  "useTransform_spec detector block = (detector block \<or> text_fraction block > 85 / 100)"

section \<open>Progress sequences and the specification's container\<close>

text \<open>
  A run reports progress well when its fractions never decrease, all lie between 0 and
  1, and the last one is 1 exactly when the run ends with a value.
\<close>

definition progress_ok :: "'a run \<Rightarrow> bool" where
  "progress_ok run =
     (let ps = progress_of (fst run)
      in sorted ps \<and> (\<forall>p\<in>set ps. 0 \<le> p \<and> p \<le> 1)
         \<and> ((\<not> isl (snd run)) = (ps \<noteq> [] \<and> last ps = 1)))"

text \<open>
  The container layout of section 6 of the specification, as the bytes a file in that
  layout holds: magic at offset 0, original size at offset 4, flags at offset 8,
  checksum at offset 9, payload from offset 13, multi-byte fields big-endian. It serves
  as input of the decompress handler.
\<close>

definition be32 :: "32 word \<Rightarrow> byte list" where
  "be32 v = [ucast (drop_bit 24 v), ucast (drop_bit 16 v), ucast (drop_bit 8 v), ucast v]"

definition container13 :: "32 word \<Rightarrow> byte \<Rightarrow> 32 word \<Rightarrow> byte list \<Rightarrow> byte list" where
  "container13 size13 flags13 checksum13 payload =
     be32 MAGIC @ be32 size13 @ [flags13] @ be32 checksum13 @ payload"

declare count_text_chars.simps [simp del]
declare all_same_from.simps [simp del]
declare crc_chunks.simps [simp del]

section \<open>Running the handlers\<close>

lemma bindR_Inr [simp]: "bindR (es, Inr x) f = (es @ fst (f x), snd (f x))"
  by (simp add: bindR_def split: prod.splits)

lemma bindR_Inl [simp]: "bindR (es, Inl e) f = (es, Inl e)"
  by (simp add: bindR_def)

lemma catchR_Inr [simp]: "catchR (es, Inr x) h = (es, Inr x)"
  by (simp add: catchR_def)

lemma catchR_Inl [simp]: "catchR (es, Inl e) h = (es @ fst (h e), snd (h e))"
  by (simp add: catchR_def split: prod.splits)

lemma reportProgress_bind [simp]:
  "bindR (reportProgress p) f = (Progress p # fst (f ()), snd (f ()))"
  by (simp add: reportProgress_def)

lemma console_error_bind [simp]:
  "bindR console_error f = (ConsoleError # fst (f ()), snd (f ()))"
  by (simp add: console_error_def)

lemma console_warn_bind [simp]:
  "bindR (console_warn a b) f = (ConsoleWarn a b # fst (f ()), snd (f ()))"
  by (simp add: console_warn_def)

lemma ret_bind [simp]: "bindR (ret x) f = f x"
  by (simp add: ret_def)

lemma throw_bind [simp]: "bindR (throw e) f = ([], Inl e)"
  by (simp add: throw_def)

lemma call_bind [simp]:
  "bindR (call (Inr x)) f = f x"
  "bindR (call (Inl e)) f = ([], Inl e)"
  by (simp_all add: call_def)

lemma fst_snd_run [simp]:
  "fst (ret x) = []" "snd (ret x) = Inr x"
  "fst (throw e) = []" "snd (throw e) = Inl e"
  "fst (call r) = []" "snd (call r) = r"
  by (simp_all add: ret_def throw_def call_def)

lemma catchR_ret [simp]: "catchR (ret x) h = ([], Inr x)"
  by (simp add: ret_def)

lemma catchR_throw [simp]: "catchR (throw e) h = h e"
  by (simp add: throw_def)

lemma fst_bindR:
  "fst (bindR m f) = fst m @ (case snd m of Inl e \<Rightarrow> [] | Inr x \<Rightarrow> fst (f x))"
  by (cases m) (auto split: sum.splits)

lemma snd_bindR:
  "snd (bindR m f) = (case snd m of Inl e \<Rightarrow> Inl e | Inr x \<Rightarrow> snd (f x))"
  by (cases m) (auto split: sum.splits)

lemma snd_bindR_Inr:
  "snd (bindR m f) = Inr y \<Longrightarrow> \<exists>x. snd m = Inr x \<and> snd (f x) = Inr y"
  by (auto simp: snd_bindR split: sum.splits)

lemma catchR_run:
  "catchR m h = (case snd m of Inl e \<Rightarrow> (fst m @ fst (h e), snd (h e)) | Inr x \<Rightarrow> m)"
  by (cases m) (auto split: sum.splits)

lemma progress_of_simps [simp]:
  "progress_of [] = []"
  "progress_of (Progress p # es) = p # progress_of es"
  "progress_of (ConsoleError # es) = progress_of es"
  "progress_of (ConsoleWarn a b # es) = progress_of es"
  "progress_of (es @ es') = progress_of es @ progress_of es'"
  by (simp_all add: progress_of_def)

section \<open>The header\<close>

text \<open>
  The first three writes fit the 12-byte array; the checksum write at offset 9 needs
  bytes 9 to 12 and is refused. The read of the checksum from the 12-byte copy of the
  header is refused in the same way.
\<close>

lemma write_header_RangeError:
  "write_header dataLength flags checksum = Inl RangeError"
  by (simp add: write_header_def bindE_def new_header_def setUint32_def setUint8_def)

lemma getUint32_9_of_12: "length view \<le> 12 \<Longrightarrow> getUint32 view 9 = Inl RangeError"
  by (simp add: getUint32_def)

lemma read_header_cases:
  "read_header data = Inl RangeError \<or> read_header data = Inl InvalidFormat"
  by (auto simp: read_header_def Let_def bindE_def getUint32_def getUint8_def
      split: sum.splits if_splits)

lemma read_header_magic_RangeError:
  "getUint32 (take 12 data) 0 = Inr MAGIC \<Longrightarrow> 12 \<le> length data \<Longrightarrow>
   read_header data = Inl RangeError"
  by (simp add: read_header_def Let_def bindE_def getUint32_def getUint8_def)

lemma length_be32 [simp]: "length (be32 v) = 4"
  by (simp add: be32_def)

lemma getUint32_be32: "getUint32 (be32 v @ rest) 0 = Inr v"
proof -
  have "push_bit 24 (ucast (ucast (drop_bit 24 v) :: byte))
        OR push_bit 16 (ucast (ucast (drop_bit 16 v) :: byte))
        OR push_bit 8 (ucast (ucast (drop_bit 8 v) :: byte))
        OR ucast (ucast v :: byte) = v" (is "?w = v")
  proof (rule bit_word_eqI)
    fix n
    assume n: "n < LENGTH(32)"
    consider "n < 8" | "8 \<le> n" "n < 16" | "16 \<le> n" "n < 24" | "24 \<le> n"
      by linarith
    then show "bit ?w n = bit v n"
      by cases (use n in \<open>auto simp: bit_simps\<close>)
  qed
  then show ?thesis by (simp add: getUint32_def be32_def)
qed

lemma read_header_container13:
  "read_header (container13 size13 flags13 checksum13 payload) = Inl RangeError"
proof -
  have "take 12 (container13 size13 flags13 checksum13 payload)
        = be32 MAGIC @ (be32 size13 @ [flags13] @ take 3 (be32 checksum13))"
    by (simp add: container13_def)
  then have "getUint32 (take 12 (container13 size13 flags13 checksum13 payload)) 0
             = Inr MAGIC"
    by (simp only: getUint32_be32)
  then show ?thesis
    by (rule read_header_magic_RangeError) (simp add: container13_def)
qed

lemma compress_try_fails: "snd (compress_try eng data) \<noteq> Inr result"
  by (auto simp: compress_try_def snd_bindR Let_def write_header_RangeError
      split: sum.splits prod.splits)

lemma decompress_fails: "snd (decompress_onmessage eng data) \<noteq> Inr result"
  using read_header_cases [of data]
  by (auto simp: decompress_onmessage_def)

section \<open>The checksum\<close>

text \<open>
  One step of the table construction is linear over exclusive or and maps only 0 to 0,
  so eight steps are injective; a table lookup combined with the shifted register is
  eight such steps applied to the register with the byte mixed in. Hence two arrays of
  the same length that differ in one byte have different checksums.
\<close>

lemma word_xor_eq_0D: "a XOR b = 0 \<Longrightarrow> a = b" for a b :: "'a::len word"
proof -
  assume h: "a XOR b = 0"
  have "b = (a XOR a) XOR b" by simp
  also have "\<dots> = a XOR (a XOR b)" by (simp only: xor.assoc)
  also have "\<dots> = a" by (simp add: h)
  finally show ?thesis by simp
qed

lemma crc_table_step_odd:
  "crc_table_step c = (if odd c then 0xEDB88320 XOR drop_bit 1 c else drop_bit 1 c)"
  by (auto simp: crc_table_step_def and_one_eq odd_iff_mod_2_eq_one)

lemma crc_table_step_xor:
  "crc_table_step (a XOR b) = crc_table_step a XOR crc_table_step b"
  by (simp add: crc_table_step_odd even_xor_iff ac_simps)

lemma crc_table_step_0 [simp]: "crc_table_step 0 = 0"
  by (simp add: crc_table_step_odd)

lemma crc_table_step_eq_0:
  assumes "crc_table_step c = 0"
  shows "c = 0"
proof (cases "odd c")
  case True
  with assms have "0xEDB88320 XOR drop_bit 1 c = 0"
    by (simp add: crc_table_step_odd)
  then have "(0xEDB88320 :: 32 word) = drop_bit 1 c"
    by (rule word_xor_eq_0D)
  then have "bit (0xEDB88320 :: 32 word) 31 = bit (drop_bit 1 c) 31"
    by simp
  then show ?thesis
    by (auto simp: bit_simps dest: bit_imp_le_length)
next
  case False
  with assms have d: "drop_bit 1 c = 0"
    by (simp add: crc_table_step_odd)
  show ?thesis
  proof (rule bit_word_eqI)
    fix n
    assume "n < LENGTH(32)"
    show "bit c n = bit (0 :: 32 word) n"
    proof (cases n)
      case 0
      then show ?thesis using False by (simp add: bit_0)
    next
      case (Suc m)
      have "bit (drop_bit 1 c) m = False" by (simp only: d) simp
      then show ?thesis using Suc by (simp add: bit_simps)
    qed
  qed
qed

lemma funpow_step_xor:
  "(crc_table_step ^^ n) (a XOR b) = (crc_table_step ^^ n) a XOR (crc_table_step ^^ n) b"
  by (induction n) (simp_all add: crc_table_step_xor)

lemma funpow_step_eq_0:
  "(crc_table_step ^^ n) c = 0 \<Longrightarrow> c = 0"
  by (induction n) (auto dest: crc_table_step_eq_0)

lemma funpow_step_inj:
  assumes "(crc_table_step ^^ n) a = (crc_table_step ^^ n) b"
  shows "a = b"
proof -
  have "(crc_table_step ^^ n) (a XOR b) = 0"
    by (simp add: funpow_step_xor assms)
  then have "a XOR b = 0" by (rule funpow_step_eq_0)
  then show ?thesis by (rule word_xor_eq_0D)
qed

lemma funpow_step_shift:
  "take_bit n c = 0 \<Longrightarrow> (crc_table_step ^^ n) c = drop_bit n c"
proof (induction n)
  case 0
  then show ?case by simp
next
  case (Suc n)
  have low: "\<not> bit c m" if "m < Suc n" for m
  proof -
    have "bit (take_bit (Suc n) c) m = bit c m"
      using that by (simp add: bit_take_bit_iff)
    then show ?thesis by (simp add: Suc.prems)
  qed
  then have "take_bit n c = 0"
    by (intro bit_word_eqI) (simp add: bit_simps)
  then have ih: "(crc_table_step ^^ n) c = drop_bit n c" by (rule Suc.IH)
  have ev: "even (drop_bit n c)"
    using low [of n] by (simp add: even_drop_bit_iff_not_bit)
  have "(crc_table_step ^^ Suc n) c = crc_table_step ((crc_table_step ^^ n) c)"
    by simp
  also have "\<dots> = crc_table_step (drop_bit n c)"
    by (simp only: ih)
  also have "\<dots> = drop_bit 1 (drop_bit n c)"
    using ev by (simp add: crc_table_step_odd)
  also have "\<dots> = drop_bit (Suc n) c"
    by simp
  finally show ?case .
qed

lemma CRC32_TABLE_lookup:
  "CRC32_TABLE ! unat (x AND 0xFF) = crc_step8 (x AND 0xFF)"
proof -
  have "unat (x AND 0xFF) \<le> unat (0xFF :: 32 word)"
    by (rule word_and_le1 [THEN word_le_nat_alt [THEN iffD1]])
  then have "unat (x AND 0xFF) < 256"
    by simp
  then show ?thesis
    by (simp add: CRC32_TABLE_def)
qed

lemma crc_byte_step:
  "CRC32_TABLE ! unat ((crc XOR ucast b) AND 0xFF) XOR drop_bit 8 crc
     = crc_step8 (crc XOR ucast b)"
  for b :: byte
proof -
  define x where "x = crc XOR (ucast b :: 32 word)"
  have lo: "x AND 0xFF = take_bit 8 x"
    by (simp add: take_bit_eq_mask mask_eq_exp_minus_1)
  have split: "x = take_bit 8 x XOR push_bit 8 (drop_bit 8 x)"
    by (rule bit_word_eqI) (auto simp: bit_simps)
  have hi0: "take_bit 8 (push_bit 8 (drop_bit 8 x)) = 0"
    by (rule bit_word_eqI) (auto simp: bit_simps)
  have "drop_bit 8 (ucast b :: 32 word) = 0"
    by (rule bit_word_eqI) (auto simp: bit_simps dest: bit_imp_le_length)
  then have d: "drop_bit 8 x = drop_bit 8 crc"
    by (simp add: x_def)
  have "crc_step8 x = crc_step8 (take_bit 8 x) XOR crc_step8 (push_bit 8 (drop_bit 8 x))"
    by (subst split) (rule funpow_step_xor)
  also have "crc_step8 (push_bit 8 (drop_bit 8 x)) = drop_bit 8 (push_bit 8 (drop_bit 8 x))"
    by (rule funpow_step_shift) (rule hi0)
  also have "\<dots> = drop_bit 8 crc"
    by (simp add: d [symmetric])
       (rule bit_word_eqI, auto simp: bit_simps dest: bit_imp_le_length)
  finally have "crc_step8 x = crc_step8 (x AND 0xFF) XOR drop_bit 8 crc"
    by (simp only: lo)
  then show ?thesis
    by (simp only: CRC32_TABLE_lookup x_def [symmetric])
qed

lemma crc_bytes_Cons:
  "crc_bytes crc (b # bs) = crc_bytes (crc_step8 (crc XOR ucast b)) bs"
  by (simp only: crc_bytes.simps crc_byte_step)

lemma crc_bytes_append:
  "crc_bytes crc (xs @ ys) = crc_bytes (crc_bytes crc xs) ys"
  by (induction xs arbitrary: crc) simp_all

lemma crc_bytes_inj:
  "crc_bytes s bs = crc_bytes t bs \<Longrightarrow> s = t"
proof (induction bs arbitrary: s t)
  case Nil
  then show ?case by simp
next
  case (Cons b bs)
  from Cons.prems have "crc_bytes (crc_step8 (s XOR ucast b)) bs
                        = crc_bytes (crc_step8 (t XOR ucast b)) bs"
    by (simp only: crc_bytes_Cons)
  then have "crc_step8 (s XOR ucast b) = crc_step8 (t XOR ucast b)"
    by (rule Cons.IH)
  then have "s XOR ucast b = t XOR ucast b"
    by (rule funpow_step_inj)
  then have "(s XOR ucast b) XOR ucast b = (t XOR ucast b) XOR ucast b"
    by simp
  then show ?case
    by (simp add: xor.assoc)
qed

lemma crc_chunks_bytes:
  "chunk \<le> chunks \<Longrightarrow>
   crc_chunks data chunks chunk crc
     = crc_bytes crc (take ((chunks - chunk) * 32768) (drop (chunk * 32768) data))"
proof (induction data chunks chunk crc rule: crc_chunks.induct)
  case (1 data chunks chunk crc)
  show ?case
  proof (cases "chunk < chunks")
    case True
    define start where "start = chunk * 32768"
    define piece where "piece = take (min (start + 32768) (length data) - start) (drop start data)"
    have piece: "piece = take 32768 (drop start data)"
      by (simp add: piece_def min_def)
    have "crc_chunks data chunks chunk crc
          = crc_chunks data chunks (chunk + 1) (crc_bytes crc piece)"
      using True by (subst crc_chunks.simps) (simp add: Let_def piece_def start_def)
    also have "\<dots> = crc_bytes (crc_bytes crc piece)
        (take ((chunks - (chunk + 1)) * 32768) (drop ((chunk + 1) * 32768) data))"
      using True "1.IH" [of start "min (start + 32768) (length data)"]
      by (simp add: piece_def start_def)
    also have "\<dots> = crc_bytes crc
        (piece @ take ((chunks - (chunk + 1)) * 32768) (drop ((chunk + 1) * 32768) data))"
      by (simp only: crc_bytes_append)
    also have "piece @ take ((chunks - (chunk + 1)) * 32768) (drop ((chunk + 1) * 32768) data)
               = take ((chunks - chunk) * 32768) (drop start data)"
    proof -
      have "(chunks - chunk) * 32768 = 32768 + (chunks - (chunk + 1)) * 32768"
        using True by (simp add: algebra_simps)
      moreover have "drop ((chunk + 1) * 32768) data = drop 32768 (drop start data)"
        by (simp add: start_def algebra_simps)
      ultimately show ?thesis
        by (simp only: piece take_add)
    qed
    finally show ?thesis by (simp add: start_def)
  next
    case False
    then show ?thesis using "1.prems" by (subst crc_chunks.simps) simp
  qed
qed

lemma crc32_bytes:
  "crc32 data = (if data = [] then 0 else crc_bytes (- 1) data XOR (- 1))"
proof -
  have "length data \<le> ((length data + 32767) div 32768) * 32768"
    by arith
  then show ?thesis
    by (simp add: crc32_def crc_chunks_bytes)
qed

lemma ucast_byte_32: "(ucast (ucast x :: 32 word) :: byte) = x"
  by (rule bit_word_eqI) (auto simp: bit_simps)

lemma word_xor_cancel_left: "a XOR b = a XOR c \<Longrightarrow> b = c" for a b c :: "'a::len word"
proof -
  assume "a XOR b = a XOR c"
  then have "a XOR (a XOR b) = a XOR (a XOR c)" by simp
  then show ?thesis by (simp add: xor.assoc [symmetric])
qed

lemma crc32_detects_byte_change:
  assumes "i < length payload" and "e \<noteq> 0"
  shows "crc32 (payload[i := payload ! i XOR e]) \<noteq> crc32 payload"
proof
  assume eq: "crc32 (payload[i := payload ! i XOR e]) = crc32 payload"
  define a where "a = take i payload"
  define c where "c = drop (Suc i) payload"
  define x where "x = payload ! i"
  have p: "payload = a @ x # c"
    using assms(1) by (simp add: a_def c_def x_def id_take_nth_drop)
  have p': "payload[i := payload ! i XOR e] = a @ (x XOR e) # c"
    using assms(1) by (simp add: a_def c_def x_def upd_conv_take_nth_drop)
  have ne: "payload \<noteq> []" "payload[i := payload ! i XOR e] \<noteq> []"
    using assms(1) by auto
  from eq ne have "crc_bytes (- 1) (payload[i := payload ! i XOR e]) XOR (- 1)
                   = crc_bytes (- 1) payload XOR (- 1)"
    by (simp only: crc32_bytes if_False)
  then have "(crc_bytes (- 1) (payload[i := payload ! i XOR e]) XOR (- 1)) XOR (- 1)
             = (crc_bytes (- 1) payload XOR (- 1)) XOR (- 1)"
    by simp
  then have "crc_bytes (- 1) (a @ (x XOR e) # c) = crc_bytes (- 1) (a @ x # c)"
    by (simp only: xor.assoc xor_self_eq xor.right_neutral p' p [symmetric])
  then have "crc_bytes (crc_step8 (crc_bytes (- 1) a XOR ucast (x XOR e))) c
             = crc_bytes (crc_step8 (crc_bytes (- 1) a XOR ucast x)) c"
    by (simp only: crc_bytes_append crc_bytes_Cons)
  then have "crc_step8 (crc_bytes (- 1) a XOR ucast (x XOR e))
             = crc_step8 (crc_bytes (- 1) a XOR ucast x)"
    by (rule crc_bytes_inj)
  then have "crc_bytes (- 1) a XOR ucast (x XOR e) = crc_bytes (- 1) a XOR ucast x"
    by (rule funpow_step_inj)
  then have "(ucast (x XOR e) :: 32 word) = ucast x"
    by (rule word_xor_cancel_left)
  then have "(ucast (ucast (x XOR e) :: 32 word) :: byte) = ucast (ucast x :: 32 word)"
    by simp
  then have "x XOR e = x XOR 0"
    by (simp only: ucast_byte_32 xor.right_neutral)
  then have "e = 0"
    by (rule word_xor_cancel_left)
  with assms(2) show False by simp
qed

section \<open>The classifier\<close>

lemma is_text_char_unat: "is_text_char b = printable_or_whitespace b"
  by (simp add: is_text_char_def printable_or_whitespace_def word_le_nat_alt word_unat_eq_iff)
     blast

lemma count_text_chars_filter:
  "sampleSize \<le> length data \<Longrightarrow> i \<le> sampleSize \<Longrightarrow>
   count_text_chars data sampleSize i textChars =
     textChars + length (filter is_text_char (take (sampleSize - i) (drop i data)))"
proof (induction data sampleSize i textChars rule: count_text_chars.induct)
  case (1 data sampleSize i textChars)
  show ?case
  proof (cases "i < sampleSize")
    case True
    then have i: "i < length data" using "1.prems" by simp
    have d: "drop i data = data ! i # drop (i + 1) data"
      using i by (simp add: Cons_nth_drop_Suc)
    have n: "sampleSize - i = Suc (sampleSize - (i + 1))"
      using True by simp
    have split: "take (sampleSize - i) (drop i data)
                 = data ! i # take (sampleSize - (i + 1)) (drop (i + 1) data)"
      by (simp only: d n take_Suc_Cons)
    have "count_text_chars data sampleSize i textChars
          = count_text_chars data sampleSize (i + 1)
              (if is_text_char (data ! i) then textChars + 1 else textChars)"
      using True by (subst count_text_chars.simps) simp
    also have "\<dots> = (if is_text_char (data ! i) then textChars + 1 else textChars)
                 + length (filter is_text_char (take (sampleSize - (i + 1)) (drop (i + 1) data)))"
      using "1.IH" True "1.prems" by simp
    finally show ?thesis by (simp add: split)
  next
    case False
    then show ?thesis using "1.prems" by (subst count_text_chars.simps) simp
  qed
qed

lemma count_text_chars_sample:
  "count_text_chars data (min (length data) 10000) 0 0
     = length (filter is_text_char (take 10000 data))"
proof -
  have "take (min (length data) 10000) data = take 10000 data"
    by (simp add: min_def)
  then show ?thesis
    using count_text_chars_filter [of "min (length data) 10000" data 0 0] by simp
qed

lemma shouldUseBWT_filter:
  "shouldUseBWT eng data =
     (isStructuredText eng data \<or>
      js_gt (js_div (length (filter is_text_char (take 10000 data)))
                    (min (length data) 10000)) (85 / 100))"
  by (simp add: shouldUseBWT_def Let_def count_text_chars_sample)

section \<open>The repeated-byte test\<close>

lemma all_same_from_iff:
  "all_same_from data first i = (\<forall>j. i \<le> j \<and> j < length data \<longrightarrow> data ! j = first)"
proof (induction data first i rule: all_same_from.induct)
  case (1 data first i)
  show ?case
  proof (cases "i < length data")
    case True
    show ?thesis
    proof (cases "data ! i = first")
      case same: True
      have "all_same_from data first i = all_same_from data first (i + 1)"
        using True same by (subst all_same_from.simps) simp
      also have "\<dots> = (\<forall>j. i + 1 \<le> j \<and> j < length data \<longrightarrow> data ! j = first)"
        using "1.IH" True same by simp
      also have "\<dots> = (\<forall>j. i \<le> j \<and> j < length data \<longrightarrow> data ! j = first)"
      proof (intro iffI allI impI)
        fix j
        assume h: "\<forall>j. i + 1 \<le> j \<and> j < length data \<longrightarrow> data ! j = first"
          and j: "i \<le> j \<and> j < length data"
        show "data ! j = first"
        proof (cases "j = i")
          case True
          then show ?thesis using same by simp
        next
          case False
          then have "i + 1 \<le> j" using j by simp
          then show ?thesis using h j by blast
        qed
      next
        fix j
        assume h: "\<forall>j. i \<le> j \<and> j < length data \<longrightarrow> data ! j = first"
          and j: "i + 1 \<le> j \<and> j < length data"
        then have "i \<le> j \<and> j < length data" by simp
        then show "data ! j = first" using h by blast
      qed
      finally show ?thesis .
    next
      case False
      then show ?thesis using True by (subst all_same_from.simps) auto
    qed
  next
    case False
    then show ?thesis by (subst all_same_from.simps) auto
  qed
qed

lemma isAllSame_iff:
  "isAllSame data = (100 \<le> length data \<and> (\<forall>b\<in>set data. b = data ! 0))"
proof (cases "length data < 100")
  case True
  then show ?thesis by (simp add: isAllSame_def)
next
  case False
  have "(\<forall>j. 1 \<le> j \<and> j < length data \<longrightarrow> data ! j = data ! 0)
        = (\<forall>b\<in>set data. b = data ! 0)"
  proof (intro iffI ballI allI impI)
    fix b
    assume h: "\<forall>j. 1 \<le> j \<and> j < length data \<longrightarrow> data ! j = data ! 0"
      and b: "b \<in> set data"
    from b obtain j where j: "j < length data" "data ! j = b"
      by (auto simp: in_set_conv_nth)
    show "b = data ! 0"
    proof (cases "j = 0")
      case True
      then show ?thesis using j by simp
    next
      case False
      then have "1 \<le> j" by simp
      then show ?thesis using h j by blast
    qed
  next
    fix j
    assume h: "\<forall>b\<in>set data. b = data ! 0" and j: "1 \<le> j \<and> j < length data"
    then have "data ! j \<in> set data" by simp
    then show "data ! j = data ! 0" using h by blast
  qed
  then show ?thesis using False by (simp add: isAllSame_def all_same_from_iff)
qed

section \<open>The stages of the compress handler\<close>

lemma ratio_gt_95:
  "js_gt (js_div a b) (95 / 100) = (20 * a > 19 * b)"
proof (cases "b = 0")
  case True
  then show ?thesis by (simp add: js_div_def)
next
  case False
  then have "(of_nat a / of_nat b > (95 / 100 :: rat))
             = (of_nat (19 * b) < (of_nat (20 * a) :: rat))"
    by (simp add: field_simps)
  also have "\<dots> = (19 * b < 20 * a)"
    by (simp only: of_nat_less_iff)
  finally show ?thesis using False by (simp add: js_div_def)
qed

lemma js_div_self: "0 < k \<Longrightarrow> js_div k k = Finite 1"
  by (simp add: js_div_def)

lemma effectiveness_check_run:
  "effectiveness_check data encoded =
     (if 20 * length encoded > 19 * length data
      then ([Progress (6 / 10)], Inr (data, True, js_div (length encoded) (length data)))
      else ([], Inr (encoded, False, js_div (length encoded) (length data))))"
  unfolding effectiveness_check_def Let_def ratio_gt_95
  by (simp add: ret_def)

lemma effectiveness_check_length:
  "snd (effectiveness_check data encoded) = Inr (payload, raw, ratio) \<Longrightarrow>
   length payload \<le> length data"
  by (auto simp: effectiveness_check_run split: if_splits)

lemma encode_stage_special:
  "snd (encode_stage eng data useBWT) = Inr (encoded, special) \<Longrightarrow>
   special = (\<not> useBWT \<and> isAllSame data)"
  by (auto simp: encode_stage_def catchR_run snd_bindR call_def
      split: if_splits sum.splits)

lemma encode_and_select_Inr:
  assumes "snd (encode_and_select eng data) = Inr (useBWT, special, raw, payload, ratio)"
  shows "useBWT = shouldUseBWT eng data"
    and "special = (\<not> useBWT \<and> isAllSame data)"
    and "length payload \<le> length data"
    and "raw \<longrightarrow> payload = data"
proof -
  from assms obtain encoded where
    e: "snd (encode_stage eng data (shouldUseBWT eng data)) = Inr (encoded, special)"
    and c: "snd (effectiveness_check data encoded) = Inr (payload, raw, ratio)"
    and u: "useBWT = shouldUseBWT eng data"
    by (auto simp: encode_and_select_def Let_def snd_bindR effectiveness_check_run
        split: sum.splits prod.splits if_splits)
  show "useBWT = shouldUseBWT eng data" by (rule u)
  show "special = (\<not> useBWT \<and> isAllSame data)"
    using encode_stage_special [OF e] u by simp
  show "length payload \<le> length data"
    by (rule effectiveness_check_length [OF c])
  show "raw \<longrightarrow> payload = data"
    using c by (auto simp: effectiveness_check_run split: if_splits)
qed

lemma make_flags_bits:
  "(make_flags useBWT special raw AND 1 = 1) = useBWT"
  "(make_flags useBWT special raw AND 2 = 2) = special"
  "(make_flags useBWT special raw AND 4 = 4) = raw"
  by (cases useBWT; cases special; cases raw; simp add: make_flags_def)+

subsection \<open>Blocks of one repeated byte\<close>

lemma isAllSame_replicate: "isAllSame (replicate n b) = (100 \<le> n)"
  by (auto simp: isAllSame_iff)

lemma take_replicate_text:
  "filter is_text_char (take k (replicate n (0x41 :: byte))) = replicate (min k n) 0x41"
  by (simp add: is_text_char_def)

lemma shouldUseBWT_replicate_A:
  assumes "0 < n"
  shows "shouldUseBWT eng (replicate n 0x41)"
proof -
  have "length (filter is_text_char (take 10000 (replicate n (0x41 :: byte))))
        = min (length (replicate n (0x41 :: byte))) 10000"
    by (simp only: take_replicate_text) (simp add: min.commute)
  moreover have "0 < min (length (replicate n (0x41 :: byte))) 10000"
    using assms by simp
  ultimately show ?thesis
    by (simp only: shouldUseBWT_filter js_div_self) simp
qed

lemma not_text_zero: "\<not> is_text_char 0"
  by (simp add: is_text_char_def)

lemma shouldUseBWT_replicate_0:
  "\<not> shouldUseBWT identity_engines (replicate n 0)"
proof -
  have "filter is_text_char (take 10000 (replicate n (0 :: byte))) = []"
    by (simp add: not_text_zero)
  then show ?thesis
    by (simp only: shouldUseBWT_filter) (simp add: js_div_def identity_engines_def)
qed

lemma encode_and_select_replicate_A:
  "0 < n \<Longrightarrow>
   encode_and_select identity_engines (replicate n 0x41) =
     ([Progress (5 / 100), Progress (2 / 10), Progress (4 / 10), Progress (6 / 10),
       Progress (85 / 100)],
      Inr (True, False, True, replicate n 0x41, Finite 1))"
  by (simp add: encode_and_select_def shouldUseBWT_replicate_A encode_stage_def
      identity_engines_def effectiveness_check_run js_div_self)

lemma encode_and_select_replicate_0:
  "0 < n \<Longrightarrow>
   encode_and_select identity_engines (replicate n 0) =
     ([Progress (5 / 100), Progress (2 / 10)]
        @ (if 100 \<le> n then [Progress (3 / 10)] else [])
        @ [Progress (6 / 10), Progress (85 / 100)],
      Inr (False, 100 \<le> n, True, replicate n 0, Finite 1))"
  by (simp add: encode_and_select_def shouldUseBWT_replicate_0 encode_stage_def
      isAllSame_replicate effectiveness_check_run js_div_self)
     (simp add: identity_engines_def js_div_self)

section \<open>The stages of the decompress handler after the header\<close>

lemma check_size_run:
  "check_size originalSize originalData =
     (if length originalData = originalSize then ([], Inr originalData)
      else ([ConsoleWarn (length originalData) originalSize],
            Inr (take originalSize originalData)))"
  by (simp add: check_size_def ret_def)

lemma check_size_never_pads:
  "snd (check_size originalSize originalData) = Inr out \<Longrightarrow>
   out = take originalSize originalData \<and> length out \<le> length originalData"
  by (auto simp: check_size_run split: if_splits)

text \<open>
  Given header fields, the stages after the header reject a payload whose checksum
  differs from the stored one before anything is decoded, and so reject every payload
  that differs in one byte from the payload the stored checksum was computed over.
\<close>

lemma after_header_ChecksumMismatch:
  "crc32 (drop 12 data) \<noteq> checksum \<Longrightarrow>
   after_header eng data originalSize flags checksum
     = ([Progress (2 / 10)], Inl ChecksumMismatch)"
  by (simp add: after_header_def Let_def)

lemma after_header_detects_changed_byte:
  assumes "12 + i < length data" and "e \<noteq> 0"
  shows "after_header eng (data[12 + i := data ! (12 + i) XOR e]) originalSize flags
           (crc32 (drop 12 data))
         = ([Progress (2 / 10)], Inl ChecksumMismatch)"
proof -
  have d: "drop 12 (data[12 + i := data ! (12 + i) XOR e])
           = (drop 12 data)[i := drop 12 data ! i XOR e]"
    using assms(1) by (simp add: drop_update_swap)
  have "i < length (drop 12 data)"
    using assms(1) by simp
  then have "crc32 ((drop 12 data)[i := drop 12 data ! i XOR e]) \<noteq> crc32 (drop 12 data)"
    using assms(2) by (rule crc32_detects_byte_change)
  then have "crc32 (drop 12 (data[12 + i := data ! (12 + i) XOR e]))
             \<noteq> crc32 (drop 12 data)"
    unfolding d .
  then show ?thesis by (rule after_header_ChecksumMismatch)
qed

text \<open>
  Given header fields whose checksum matches, the stages after the header return what
  was reconstructed, cut to the stored size when it is longer and as it is when it is
  shorter, with a warning exactly when the two lengths differ.
\<close>

lemma after_header_size_check:
  assumes "crc32 (drop 12 data) = checksum"
    and "reconstruct eng (flags AND 1 = 1) (flags AND 4 = 4) (drop 12 data)
         = (es, Inr originalData)"
    and "expanded = expand_special (flags AND 2 = 2) (unat originalSize) originalData"
  shows "after_header eng data originalSize flags checksum
         = (Progress (2 / 10) # es
              @ (if length expanded = unat originalSize then []
                 else [ConsoleWarn (length expanded) (unat originalSize)])
              @ [Progress 1],
            Inr \<lparr> decompressed = take (unat originalSize) expanded,
                  d_compressedSize = length data,
                  d_originalSize = min (length expanded) (unat originalSize) \<rparr>)"
  using assms
  by (simp add: after_header_def Let_def check_size_run)

section \<open>The stages before and after the header, composed\<close>

text \<open>
  What the stages would do were the header written and read: when the decoder undoes
  the encoder and the inverse transform undoes the transform, the stages after the
  header, given the fields and the payload that the stages before the header computed
  (behind any 12 bytes), return the block. The engines that return their argument are
  an instance.
\<close>

lemma encode_stage_Inr:
  assumes "snd (encode_stage eng data useBWT) = Inr (encoded, special)"
  shows "if useBWT
         then \<exists>bwtData. bwt_process eng data = Inr bwtData
                \<and> huffman_encode eng bwtData = Inr encoded
         else huffman_encode eng data = Inr encoded"
  using assms
  by (auto simp: encode_stage_def catchR_run snd_bindR call_def
      split: if_splits sum.splits)

lemma stages_round_trip:
  assumes enc: "snd (encode_and_select eng data) = Inr (useBWT, special, raw, payload, ratio)"
    and huff: "\<And>x y. huffman_encode eng x = Inr y \<Longrightarrow> huffman_decode eng y = Inr x"
    and bwt: "\<And>x y. bwt_process eng x = Inr y \<Longrightarrow> bwt_inverse eng y = Inr x"
    and len: "length data < 2 ^ 32"
    and hdr: "length header = 12"
  shows "snd (after_header eng (header @ payload) (of_nat (length data))
                (make_flags useBWT special raw) (crc32 payload))
         = Inr \<lparr> decompressed = data,
                 d_compressedSize = 12 + length payload,
                 d_originalSize = length data \<rparr>"
proof -
  from enc obtain encoded where
    e: "snd (encode_stage eng data useBWT) = Inr (encoded, special)"
    and c: "payload = (if raw then data else encoded)"
    by (auto simp: encode_and_select_def Let_def snd_bindR effectiveness_check_run
        split: sum.splits prod.splits if_splits)
  have sp: "special = (\<not> useBWT \<and> isAllSame data)"
    by (rule encode_stage_special [OF e])
  have un: "unat (of_nat (length data) :: 32 word) = length data"
    using len by (simp add: unat_of_nat take_bit_nat_eq_self)
  have rec: "snd (reconstruct eng useBWT raw payload) = Inr data"
  proof (cases raw)
    case True
    then show ?thesis using c by (simp add: reconstruct_def)
  next
    case False
    show ?thesis
    proof (cases useBWT)
      case True
      with encode_stage_Inr [OF e] obtain bwtData where
        "bwt_process eng data = Inr bwtData" "huffman_encode eng bwtData = Inr encoded"
        by auto
      then have "huffman_decode eng encoded = Inr bwtData" "bwt_inverse eng bwtData = Inr data"
        by (auto dest: huff bwt)
      then show ?thesis using False True c by (simp add: reconstruct_def)
    next
      case nb: False
      with encode_stage_Inr [OF e] have "huffman_encode eng data = Inr encoded"
        by simp
      then have "huffman_decode eng encoded = Inr data"
        by (rule huff)
      then show ?thesis using False nb c by (simp add: reconstruct_def)
    qed
  qed
  have ex: "expand_special special (length data) data = data"
    using sp by (auto simp: expand_special_def isAllSame_iff)
  obtain es where r: "reconstruct eng useBWT raw payload = (es, Inr data)"
    using rec by (cases "reconstruct eng useBWT raw payload") auto
  show ?thesis
    using r ex un hdr
    by (simp add: after_header_def Let_def make_flags_bits check_size_run)
qed

lemma stages_round_trip_identity:
  "snd (after_header identity_engines (replicate 12 0 @ replicate 3 0x41) 3
          (make_flags True False True) (crc32 (replicate 3 0x41)))
   = Inr \<lparr> decompressed = replicate 3 0x41, d_compressedSize = 15, d_originalSize = 3 \<rparr>"
proof -
  have "snd (encode_and_select identity_engines (replicate 3 0x41))
        = Inr (True, False, True, replicate 3 0x41, Finite 1)"
    by (simp add: encode_and_select_replicate_A)
  from stages_round_trip [OF this, of "replicate 12 0"]
  show ?thesis by (simp add: identity_engines_def)
qed

section \<open>Progress\<close>

lemma compress_progress: "progress_ok (compress_onmessage eng data fileSize)"
  unfolding progress_ok_def compress_onmessage_def compress_try_def encode_and_select_def
    encode_stage_def effectiveness_check_run
  by (auto simp: Let_def catchR_run fst_bindR snd_bindR write_header_RangeError call_def
      throw_def ret_def reportProgress_def console_error_def
      split: sum.splits prod.splits if_splits)

lemma encode_and_select_progress:
  "progress_ok (bindR (encode_and_select eng data) (\<lambda>_. reportProgress 1))"
  unfolding progress_ok_def encode_and_select_def encode_stage_def effectiveness_check_run
  by (auto simp: Let_def catchR_run fst_bindR snd_bindR call_def
      throw_def ret_def reportProgress_def console_error_def
      split: sum.splits prod.splits if_splits)

lemma decompress_progress: "progress_ok (decompress_onmessage eng data)"
  using read_header_cases [of data]
  unfolding progress_ok_def decompress_onmessage_def
  by (auto simp: Let_def)

lemma after_header_progress:
  "progress_ok (bindR (reportProgress (5 / 100))
     (\<lambda>_. after_header eng data originalSize flags checksum))"
  unfolding progress_ok_def after_header_def reconstruct_def check_size_run
  by (auto simp: Let_def fst_bindR snd_bindR call_def
      throw_def ret_def reportProgress_def
      split: sum.splits prod.splits if_splits)

lemma decompress_container13:
  "decompress_onmessage eng (container13 size13 flags13 checksum13 payload)
     = ([Progress (5 / 100)], Inl RangeError)"
  by (simp add: decompress_onmessage_def read_header_container13)
     (simp add: container13_def)

section \<open>Claims about the container\<close>

text \<open>
  Claim C1 (round trip): decompressing the container produced by compressing a block
  yields the block. The compress handler never produces a container: for every block,
  every file size and every pair of engines it ends with an error message. The header
  array has 12 bytes and the 32-bit checksum is written at offset 9, so
  \<^verbatim>\<open>view.setUint32(9, checksum)\<close> throws \<^verbatim>\<open>RangeError\<close> whenever the stages before it
  succeed. There is no compressed container to decompress.
\<close>

theorem compress_never_completes:
  "snd (compress_onmessage eng data fileSize) \<noteq> Inr result"
  by (simp add: compress_onmessage_def compress_try_fails)

text \<open>
  Claim C2 (layout): the header occupies 13 bytes, the payload begins at offset 13, and
  both handlers use this layout. The compress handler allocates 12 bytes for the header
  and fails to write the checksum field, which would end at byte 13; the decompress
  handler copies 12 bytes as the header, fails to read the checksum field from the
  copy, and would take the payload from offset 12 (\<^verbatim>\<open>data.slice(12)\<close>). A container in
  the 13-byte layout is rejected when its checksum field is read.
\<close>

theorem header_has_12_bytes:
  "length new_header = 12
   \<and> write_header dataLength flags checksum = Inl RangeError
   \<and> getUint32 (take 12 data) 9 = Inl RangeError
   \<and> read_header (container13 size13 flags13 checksum13 payload) = Inl RangeError"
  by (simp add: new_header_def write_header_RangeError getUint32_9_of_12
      read_header_container13)

text \<open>
  Claim C4 (integrity): flipping one bit of the payload of a valid container makes
  decompress fail with the checksum-mismatch error. Take the container of section 6 for
  any payload, with the checksum of that payload, and flip bit \<open>k\<close> of payload byte
  \<open>i\<close>: the handler fails, but with \<^verbatim>\<open>RangeError\<close> from reading the checksum field,
  after the first progress report and before any checksum is computed. On no input at
  all does the handler end with the checksum-mismatch error.
\<close>

theorem corrupted_payload_RangeError:
  "decompress_onmessage eng
     (container13 size13 flags13 (crc32 payload)
        (payload[i := payload ! i XOR push_bit k 1]))
     = ([Progress (5 / 100)], Inl RangeError)
   \<and> snd (decompress_onmessage eng data) \<noteq> Inl ChecksumMismatch"
proof
  show "decompress_onmessage eng
     (container13 size13 flags13 (crc32 payload)
        (payload[i := payload ! i XOR push_bit k 1]))
     = ([Progress (5 / 100)], Inl RangeError)"
    by (rule decompress_container13)
  show "snd (decompress_onmessage eng data) \<noteq> Inl ChecksumMismatch"
    using read_header_cases [of data]
    by (auto simp: decompress_onmessage_def)
qed

text \<open>
  Claim C8 (size mismatch): when the checksum verifies and the reconstructed length
  differs from the stored original size, decompress truncates or leaves the block,
  warns, and still returns a block. The handler never returns a block, whatever the
  input: it ends with an error on every byte array. In particular the raw container of
  section 6 with original size 1 and the two-byte payload \<open>[0x41, 0x42]\<close>, which the
  claim wants truncated to one byte, is rejected with \<^verbatim>\<open>RangeError\<close>.
\<close>

theorem decompress_never_completes:
  "snd (decompress_onmessage eng data) \<noteq> Inr result
   \<and> decompress_onmessage eng (container13 1 4 (crc32 [0x41, 0x42]) [0x41, 0x42])
       = ([Progress (5 / 100)], Inl RangeError)"
  by (simp add: decompress_fails decompress_container13)

text \<open>
  The payload handed to the header stage is never longer than the block, so a 12-byte
  header followed by it would have at most \<open>length data + 12\<close> bytes.
\<close>

lemma selected_payload_bound:
  "snd (encode_and_select eng data) = Inr (useBWT, special, raw, payload, ratio) \<Longrightarrow>
   length (new_header @ payload) \<le> length data + 12"
  by (drule encode_and_select_Inr(3)) (simp add: new_header_def)

lemma compress_try_RangeError:
  "encode_and_select eng data = (es, Inr (useBWT, special, raw, payload, ratio)) \<Longrightarrow>
   compress_try eng data = (es, Inl RangeError)"
  by (simp add: compress_try_def write_header_RangeError)

text \<open>
  Claim C5 (non-expansion): for every block the container produced by compress is at
  most 13 bytes longer than the block, because an encoder output whose ratio to the
  block exceeds 0.95 is replaced by the block itself. Whenever the stages before the
  header succeed on a block within the size ceiling, the payload they selected is no
  longer than the block, and the handler then posts no container at all: it reports
  what those stages reported and ends with \<^verbatim>\<open>RangeError\<close> from the checksum write. The
  bounded container the claim promises is never produced.
\<close>

theorem bounded_payload_but_no_container:
  "fileSize \<le> MAX_MOBILE_SIZE \<Longrightarrow>
   encode_and_select eng data = (es, Inr (useBWT, special, raw, payload, ratio)) \<Longrightarrow>
   length payload \<le> length data
   \<and> compress_onmessage eng data fileSize = (es, Inl RangeError)"
proof -
  assume f: "fileSize \<le> MAX_MOBILE_SIZE"
    and e: "encode_and_select eng data = (es, Inr (useBWT, special, raw, payload, ratio))"
  from e have "snd (encode_and_select eng data) = Inr (useBWT, special, raw, payload, ratio)"
    by simp
  then have "length payload \<le> length data"
    by (rule encode_and_select_Inr(3))
  moreover have "compress_onmessage eng data fileSize = (es, Inl RangeError)"
    using f by (simp add: compress_onmessage_def compress_try_RangeError [OF e])
  ultimately show ?thesis by simp
qed

theorem bounded_payload_but_no_container_witness:
  "(3 :: nat) \<le> MAX_MOBILE_SIZE
   \<and> encode_and_select identity_engines (replicate 3 0x41) =
       ([Progress (5 / 100), Progress (2 / 10), Progress (4 / 10), Progress (6 / 10),
         Progress (85 / 100)],
        Inr (True, False, True, replicate 3 0x41, Finite 1))
   \<and> length (replicate 3 (0x41 :: byte)) \<le> length (replicate 3 (0x41 :: byte))
   \<and> compress_onmessage identity_engines (replicate 3 0x41) 3 =
       ([Progress (5 / 100), Progress (2 / 10), Progress (4 / 10), Progress (6 / 10),
         Progress (85 / 100)],
        Inl RangeError)"
proof -
  have a: "(3 :: nat) \<le> MAX_MOBILE_SIZE"
    by (simp add: MAX_MOBILE_SIZE_def)
  have b: "encode_and_select identity_engines (replicate 3 0x41) =
       ([Progress (5 / 100), Progress (2 / 10), Progress (4 / 10), Progress (6 / 10),
         Progress (85 / 100)],
        Inr (True, False, True, replicate 3 0x41, Finite 1))"
    by (simp add: encode_and_select_replicate_A)
  show ?thesis
    using bounded_payload_but_no_container [OF a b] a b by simp
qed

text \<open>
  Claim C6 (empty block): compressing the empty block produces a container with
  original size 0 and the raw or the degenerate flag, which decompresses to the empty
  block. With an encoder that returns the empty stream for the empty block and a
  detector that does not recognise it, the stages before framing choose neither flag:
  0/0 is \<^verbatim>\<open>NaN\<close>, which is not greater than 0.95, and the repeated-byte test rejects
  blocks shorter than 100 bytes, so the flags byte is 0. The handler then fails on the
  checksum write and posts no container.
\<close>

theorem empty_block_no_container:
  assumes "huffman_encode eng [] = Inr []" and "\<not> isStructuredText eng []"
  shows "encode_and_select eng [] =
           ([Progress (5 / 100), Progress (2 / 10), Progress (85 / 100)],
            Inr (False, False, False, [], NaN))
         \<and> make_flags False False False = 0
         \<and> compress_onmessage eng [] 0 =
           ([Progress (5 / 100), Progress (2 / 10), Progress (85 / 100)], Inl RangeError)"
proof -
  have u: "\<not> shouldUseBWT eng []"
    using assms(2) by (simp add: shouldUseBWT_filter js_div_def)
  have s: "\<not> isAllSame []"
    by (simp add: isAllSame_def)
  have e: "encode_and_select eng [] =
           ([Progress (5 / 100), Progress (2 / 10), Progress (85 / 100)],
            Inr (False, False, False, [], NaN))"
    using assms(1) u s
    by (simp add: encode_and_select_def encode_stage_def effectiveness_check_run
        js_div_def)
  have "compress_onmessage eng [] 0 =
           ([Progress (5 / 100), Progress (2 / 10), Progress (85 / 100)], Inl RangeError)"
    by (simp add: compress_onmessage_def MAX_MOBILE_SIZE_def compress_try_def e
        write_header_RangeError)
  with e show ?thesis by (simp add: make_flags_def)
qed

theorem empty_block_no_container_witness:
  "huffman_encode identity_engines [] = Inr []
   \<and> \<not> isStructuredText identity_engines []
   \<and> compress_onmessage identity_engines [] 0 =
       ([Progress (5 / 100), Progress (2 / 10), Progress (85 / 100)], Inl RangeError)"
proof -
  have a: "huffman_encode identity_engines [] = Inr []"
    by (simp add: identity_engines_def)
  have b: "\<not> isStructuredText identity_engines []"
    by (simp add: identity_engines_def)
  show ?thesis using empty_block_no_container [OF a b] a b by simp
qed

section \<open>Claims about the classifier and the repeated-byte test\<close>

text \<open>
  Claim C7 (classifier): the transform decision is true exactly when the structured-text
  detector recognises the block or the fraction of printable or whitespace bytes in the
  first \<open>min (length, 10000)\<close> bytes exceeds 0.85. The counting loop of
  \<^verbatim>\<open>shouldUseBWT\<close> and its ratio test compute the specification's decision. The
  decision is a function of the block and the detector alone.
\<close>

theorem shouldUseBWT_refines_spec:
  "shouldUseBWT eng data = useTransform_spec (isStructuredText eng) data"
proof (cases "data = []")
  case True
  then show ?thesis
    by (simp add: shouldUseBWT_filter useTransform_spec_def text_fraction_def js_div_def)
next
  case False
  define n where "n = min (length data) 10000"
  define t where "t = length (filter printable_or_whitespace (take 10000 data))"
  have n: "n \<noteq> 0" "length (take 10000 data) = n" "take 10000 data \<noteq> []"
    using False by (auto simp: n_def)
  have f: "filter is_text_char = filter printable_or_whitespace"
    by (simp add: is_text_char_unat [abs_def])
  have "shouldUseBWT eng data
        = (isStructuredText eng data \<or> js_gt (js_div t n) (85 / 100))"
    by (simp only: shouldUseBWT_filter f t_def n_def)
  also have "js_gt (js_div t n) (85 / 100) = (text_fraction data > 85 / 100)"
    using n(1,3)
    by (simp only: t_def js_div_def text_fraction_def Let_def n(2) if_False js_gt.simps)
  finally show ?thesis by (simp add: useTransform_spec_def)
qed

text \<open>
  Claim C10 (threshold of the repeated-byte test): for a block shorter than 100 bytes
  \<^verbatim>\<open>isAllSame\<close> is false, the repeated-byte branch is not taken and the flags byte
  has the degenerate bit clear; for a block of at least 100 bytes \<^verbatim>\<open>isAllSame\<close> is
  true exactly when every byte equals the first.
\<close>

theorem isAllSame_threshold:
  "(length data < 100 \<longrightarrow>
      \<not> isAllSame data
      \<and> (snd (encode_and_select eng data) = Inr (useBWT, special, raw, payload, ratio)
           \<longrightarrow> \<not> special \<and> make_flags useBWT special raw AND 2 = 0))
   \<and> (100 \<le> length data \<longrightarrow> isAllSame data = (\<forall>b\<in>set data. b = data ! 0))"
proof (intro conjI impI)
  assume "length data < 100"
  then show "\<not> isAllSame data" by (simp add: isAllSame_def)
next
  assume l: "length data < 100"
    and r: "snd (encode_and_select eng data) = Inr (useBWT, special, raw, payload, ratio)"
  from encode_and_select_Inr(2) [OF r] l show "\<not> special"
    by (simp add: isAllSame_def)
  then show "make_flags useBWT special raw AND 2 = 0"
    by (cases useBWT; cases raw; simp add: make_flags_def)
next
  assume "100 \<le> length data"
  then show "isAllSame data = (\<forall>b\<in>set data. b = data ! 0)"
    by (simp add: isAllSame_iff)
qed

theorem isAllSame_threshold_witness:
  "length (replicate 99 (0 :: byte)) < 100
   \<and> \<not> isAllSame (replicate 99 0)
   \<and> snd (encode_and_select identity_engines (replicate 99 0))
       = Inr (False, False, True, replicate 99 0, Finite 1)
   \<and> make_flags False False True AND 2 = 0
   \<and> 100 \<le> length (replicate 100 (0 :: byte))
   \<and> isAllSame (replicate 100 0)
   \<and> 100 \<le> length (replicate 99 (0 :: byte) @ [1])
   \<and> \<not> isAllSame (replicate 99 0 @ [1])"
proof -
  have a: "length (replicate 99 (0 :: byte)) < 100" by simp
  have b: "snd (encode_and_select identity_engines (replicate 99 0))
           = Inr (False, False, True, replicate 99 0, Finite 1)"
    by (simp add: encode_and_select_replicate_0)
  have c: "100 \<le> length (replicate 100 (0 :: byte))" by simp
  have d: "100 \<le> length (replicate 99 (0 :: byte) @ [1])" by simp
  have e: "(replicate 99 (0 :: byte) @ [1]) ! 0 = 0"
    by (simp add: nth_append)
  show ?thesis
    using isAllSame_threshold [of "replicate 99 0" identity_engines False False True
        "replicate 99 0" "Finite 1"]
      isAllSame_threshold [of "replicate 100 0"]
      isAllSame_threshold [of "replicate 99 0 @ [1]"] a b c d e
    by simp
qed

text \<open>
  Claim C3 (degenerate flag), as stated: every block of at least 100 equal bytes gets
  the degenerate flag, whatever the transform decision. It fails for 10000 bytes of
  value 0x41: all of them are printable, the classifier chooses the transform path,
  the repeated-byte test is never consulted and the flags byte is 5 (transform and
  raw), with the degenerate bit clear.
\<close>

theorem degenerate_flag_counterexample:
  "100 \<le> length (replicate 10000 (0x41 :: byte))
   \<and> isAllSame (replicate 10000 0x41)
   \<and> encode_and_select identity_engines (replicate 10000 0x41) =
       ([Progress (5 / 100), Progress (2 / 10), Progress (4 / 10), Progress (6 / 10),
         Progress (85 / 100)],
        Inr (True, False, True, replicate 10000 0x41, Finite 1))
   \<and> make_flags True False True = 5
   \<and> (5 :: byte) AND 2 = 0"
  by (simp add: isAllSame_replicate encode_and_select_replicate_A make_flags_def)

text \<open>
  Claim C3, amended: for a block of at least 100 bytes that all equal the first byte,
  the flags byte computed for the header has the degenerate bit set exactly when the
  classifier did not choose the transform path; the repeated-byte test sits in the
  branch for binary data only. For 10000 bytes of value 0x41 the classifier chooses the
  transform path with any detector, so whenever the stages before the header succeed
  on that block, with any engines, the flags byte has the degenerate bit clear and the
  transform bit set.
\<close>

theorem degenerate_flag_iff_no_transform:
  "(100 \<le> length data \<and> (\<forall>b\<in>set data. b = data ! 0)
      \<and> snd (encode_and_select eng data) = Inr (useBWT, special, raw, payload, ratio)
      \<longrightarrow> (make_flags useBWT special raw AND 2 = 2) = (\<not> shouldUseBWT eng data))
   \<and> shouldUseBWT eng' (replicate 10000 0x41)
   \<and> (snd (encode_and_select eng' (replicate 10000 0x41))
         = Inr (useBWT', special', raw', payload', ratio')
      \<longrightarrow> make_flags useBWT' special' raw' AND 2 = 0
          \<and> make_flags useBWT' special' raw' AND 1 = 1)"
proof (intro conjI impI)
  assume h: "100 \<le> length data \<and> (\<forall>b\<in>set data. b = data ! 0)
      \<and> snd (encode_and_select eng data) = Inr (useBWT, special, raw, payload, ratio)"
  then have r: "snd (encode_and_select eng data) = Inr (useBWT, special, raw, payload, ratio)"
    by simp
  from encode_and_select_Inr(1,2) [OF r] h
  show "(make_flags useBWT special raw AND 2 = 2) = (\<not> shouldUseBWT eng data)"
    by (simp add: make_flags_bits isAllSame_iff)
next
  show "shouldUseBWT eng' (replicate 10000 0x41)"
    by (rule shouldUseBWT_replicate_A) simp
next
  assume r: "snd (encode_and_select eng' (replicate 10000 0x41))
             = Inr (useBWT', special', raw', payload', ratio')"
  have t: "shouldUseBWT eng' (replicate 10000 0x41)"
    by (rule shouldUseBWT_replicate_A) simp
  from encode_and_select_Inr(1,2) [OF r] t
  have u: "useBWT'" and s: "\<not> special'"
    by simp_all
  from u s show "make_flags useBWT' special' raw' AND 2 = 0"
    by (cases raw'; simp add: make_flags_def)
  from u show "make_flags useBWT' special' raw' AND 1 = 1"
    by (simp add: make_flags_bits)
qed

theorem degenerate_flag_iff_no_transform_witness:
  "100 \<le> length (replicate 100 (0 :: byte))
   \<and> list_all (\<lambda>b. b = replicate 100 0 ! 0) (replicate 100 (0 :: byte))
   \<and> snd (encode_and_select identity_engines (replicate 100 0))
       = Inr (False, True, True, replicate 100 0, Finite 1)
   \<and> make_flags False True True AND 2 = 2
   \<and> \<not> shouldUseBWT identity_engines (replicate 100 0)
   \<and> snd (encode_and_select identity_engines (replicate 10000 0x41))
       = Inr (True, False, True, replicate 10000 0x41, Finite 1)
   \<and> make_flags True False True AND 2 \<noteq> 2
   \<and> make_flags True False True AND 2 = 0
   \<and> make_flags True False True AND 1 = 1
   \<and> shouldUseBWT identity_engines (replicate 10000 0x41)"
proof -
  have a: "100 \<le> length (replicate 100 (0 :: byte))
           \<and> (\<forall>b\<in>set (replicate 100 (0 :: byte)). b = replicate 100 0 ! 0)
           \<and> snd (encode_and_select identity_engines (replicate 100 0))
               = Inr (False, True, True, replicate 100 0, Finite 1)"
    by (simp add: encode_and_select_replicate_0)
  have b: "100 \<le> length (replicate 10000 (0x41 :: byte))
           \<and> (\<forall>b\<in>set (replicate 10000 (0x41 :: byte)). b = replicate 10000 0x41 ! 0)
           \<and> snd (encode_and_select identity_engines (replicate 10000 0x41))
               = Inr (True, False, True, replicate 10000 0x41, Finite 1)"
    by (simp add: encode_and_select_replicate_A)
  have c: "make_flags True False True = 5"
    by (simp add: make_flags_def)
  show ?thesis
    using degenerate_flag_iff_no_transform [of "replicate 100 0" identity_engines
        False True True "replicate 100 0" "Finite 1" identity_engines
        True False True "replicate 10000 0x41" "Finite 1"]
      degenerate_flag_iff_no_transform [of "replicate 10000 0x41" identity_engines
        True False True "replicate 10000 0x41" "Finite 1" identity_engines
        True False True "replicate 10000 0x41" "Finite 1"] a b
    by (simp add: c make_flags_def list_all_iff)
qed

section \<open>Claims about progress reports\<close>

text \<open>
  Claim C9 (progress): within one invocation of either handler the reported fractions
  lie in \<open>[0, 1]\<close>, never decrease, and end at 1 on successful completion. This holds
  of the compress handler and of the decompress handler on every input. It also holds
  of the reporting stages taken without the header: the stages of the compress handler
  before the header followed by its final report, and the stages of the decompress
  handler after the header, run on any header fields after the first report.
\<close>

theorem progress_monotone:
  "progress_ok (compress_onmessage eng data fileSize)
   \<and> progress_ok (decompress_onmessage eng data)
   \<and> progress_ok (bindR (encode_and_select eng data) (\<lambda>_. reportProgress 1))
   \<and> progress_ok (bindR (reportProgress (5 / 100))
        (\<lambda>_. after_header eng data originalSize flags checksum))"
  by (intro conjI compress_progress decompress_progress encode_and_select_progress
      after_header_progress)

theorem progress_monotone_witness:
  "progress_of (fst (compress_onmessage identity_engines [] 0))
     = [5 / 100, 2 / 10, 85 / 100]
   \<and> progress_ok (compress_onmessage identity_engines [] 0)
   \<and> progress_of (fst (decompress_onmessage identity_engines [])) = [5 / 100]
   \<and> progress_ok (decompress_onmessage identity_engines [])
   \<and> progress_of (fst (bindR (encode_and_select identity_engines [])
        (\<lambda>_. reportProgress 1)))
       = [5 / 100, 2 / 10, 85 / 100, 1]
   \<and> \<not> isl (snd (bindR (encode_and_select identity_engines [])
        (\<lambda>_. reportProgress 1)))
   \<and> progress_ok (bindR (encode_and_select identity_engines [])
        (\<lambda>_. reportProgress 1))
   \<and> progress_of (fst (bindR (reportProgress (5 / 100))
        (\<lambda>_. after_header identity_engines [] 0 4 0)))
       = [5 / 100, 2 / 10, 8 / 10, 1]
   \<and> \<not> isl (snd (bindR (reportProgress (5 / 100))
        (\<lambda>_. after_header identity_engines [] 0 4 0)))
   \<and> progress_ok (bindR (reportProgress (5 / 100))
        (\<lambda>_. after_header identity_engines [] 0 4 0))"
proof -
  have e: "encode_and_select identity_engines [] =
           ([Progress (5 / 100), Progress (2 / 10), Progress (85 / 100)],
            Inr (False, False, False, [], NaN))"
    by (simp add: encode_and_select_def encode_stage_def effectiveness_check_run
        shouldUseBWT_filter isAllSame_def js_div_def identity_engines_def)
  have a: "compress_onmessage identity_engines [] 0 =
           ([Progress (5 / 100), Progress (2 / 10), Progress (85 / 100)], Inl RangeError)"
    by (simp add: compress_onmessage_def MAX_MOBILE_SIZE_def compress_try_def e
        write_header_RangeError)
  have b: "decompress_onmessage identity_engines [] = ([Progress (5 / 100)], Inl FileTooShort)"
    by (simp add: decompress_onmessage_def)
  have c: "after_header identity_engines [] 0 4 0
           = ([Progress (2 / 10), Progress (8 / 10), Progress 1],
              Inr \<lparr> decompressed = [], d_compressedSize = 0, d_originalSize = 0 \<rparr>)"
    by (simp add: after_header_def crc32_def reconstruct_def expand_special_def
        check_size_run)
  show ?thesis
    using progress_monotone [of identity_engines "[]" 0 0 4 0]
    by (simp add: a b c e reportProgress_def)
qed

end
